theory Spec2Isabelle
  imports Main "HOL-Library.Word"
begin

unbundle bit_operations_syntax

section \<open>The acquisition driver of the FMCW radar (software/src/device.c)\<close>

text \<open>
  The driver keeps all of its data in file-scope variables. They are the fields of one
  record, passed through every function. A C \<open>int\<close> is a HOL \<open>int\<close>: the counters are
  bounded by the flag length, the sweep length and the chunk length, so none of them
  wraps. \<open>uint64_t\<close> is \<open>64 word\<close>, a byte of the stream \<open>8 word\<close>, and a sample
  (\<open>sample_t\<close>, a C \<open>int\<close> that receives a converted \<open>uint64_t\<close>) is \<open>32 word\<close>, read
  as a signed number with \<open>sint\<close>.
\<close>

type_synonym byte = "8 word"
type_synonym sample_t = "32 word"

definition TRUE :: int where [simp]: "TRUE = 1"
definition FALSE :: int where [simp]: "FALSE = 0"
definition BYTE_BITS :: int where [simp]: "BYTE_BITS = 8"
definition START_FLAG :: byte where [simp]: "START_FLAG = 0xFF"
definition STOP_FLAG :: byte where [simp]: "STOP_FLAG = 0x8F"

text \<open>
  The statics of device.c, under their names without the leading underscore
  (\<open>_sample_bytes\<close> is \<open>sample_bytes_var\<close>, since \<open>sample_bytes\<close> is the function).
  \<^item> \<open>sweep\<close> is the memory reached through the pointer \<open>sweep\<close>: cell \<open>i\<close> is what
    \<open>sweep[i]\<close> holds, \<open>None\<close> while it has not been written since \<open>malloc\<close>.
    \<open>sweep_size\<close> is the number of elements \<open>malloc\<close> was asked for; a write at an
    index outside \<open>0 ..< sweep_size\<close> is a write outside the block, and the map records
    it at that index.
  \<^item> \<open>log_file\<close> is the \<open>FILE *\<close> as an address (0 is \<open>NULL\<close>); \<open>log_data\<close> is what
    has been written to that file so far, and is not used while \<open>log_file\<close> is 0.
  \<^item> \<open>producer_running\<close> says that \<open>pthread_create\<close> has started the producer.
\<close>

record state =
  sample_bits :: int
  sample_bytes_var :: int
  nflags :: int
  fft :: int
  sweep_len :: int
  start_flags :: int
  stop_flags :: int
  sweep_idx :: int
  sweep_valid :: int
  log_file :: nat
  log_data :: "byte list"
  sweep :: "int \<Rightarrow> sample_t option"
  sweep_size :: int
  last_sample :: sample_t
  byte_idx :: int
  uval :: "64 word"
  cancel :: int
  producer_running :: bool

text \<open>
  Static storage is zero-initialised: the state of the process before
  \<open>fmcw_start_acquisition\<close>.
\<close>

definition init_state :: state where
  "init_state =
     \<lparr>sample_bits = 0, sample_bytes_var = 0, nflags = 0, fft = 0, sweep_len = 0,
      start_flags = 0, stop_flags = 0, sweep_idx = 0, sweep_valid = 0,
      log_file = 0, log_data = [], sweep = Map.empty, sweep_size = 0,
      last_sample = 0, byte_idx = 0, uval = 0, cancel = 0, producer_running = False\<rparr>"

subsection \<open>Codec: pow2ceil, num_flags, sample_bytes, sample_val\<close>

text \<open>
  C's \<open>/\<close> and \<open>%\<close> on \<open>int\<close> truncate towards zero.
\<close>

definition c_div :: "int \<Rightarrow> int \<Rightarrow> int" where
  "c_div a b = sgn a * sgn b * (\<bar>a\<bar> div \<bar>b\<bar>)"

definition c_mod :: "int \<Rightarrow> int \<Rightarrow> int" where
  "c_mod a b = a - b * c_div a b"

text \<open>
  The loop of \<open>pow2ceil\<close>: \<open>while (val > pow2val) pow2val *= 2\<close>. \<open>pow2val\<close> starts at 1
  and only doubles, so it is positive whenever the loop tests it; the test \<open>0 < pow2val\<close>
  is that fact, written into the recursion to make it well-founded.
\<close>

function pow2ceil_loop :: "int \<Rightarrow> int \<Rightarrow> int" where
  "pow2ceil_loop val pow2val =
     (if val > pow2val \<and> 0 < pow2val then pow2ceil_loop val (pow2val * 2) else pow2val)"
  by pat_completeness auto
termination
  by (relation "measure (\<lambda>(val, pow2val). nat (val - pow2val))") auto

declare pow2ceil_loop.simps [simp del]

definition pow2ceil :: "int \<Rightarrow> int" where
  "pow2ceil val = pow2ceil_loop val 1"

definition num_flags :: "state \<Rightarrow> int \<Rightarrow> int" where
  "num_flags s sample_bits0 =
     (let sample_bits1 = (if fft s \<noteq> 0 then sample_bits0 * 2 else sample_bits0);
          bytes = c_div sample_bits1 BYTE_BITS + 1
      in pow2ceil bytes)"

definition sample_bytes :: "state \<Rightarrow> int \<Rightarrow> int" where
  "sample_bytes s sample_bits0 =
     (let sample_bits1 = (if fft s \<noteq> 0 then sample_bits0 * 2 else sample_bits0);
          bytes0 = c_div sample_bits1 BYTE_BITS;
          bytes = (if c_mod sample_bits1 BYTE_BITS \<noteq> 0 then bytes0 + 1 else bytes0)
      in pow2ceil bytes)"

text \<open>
  \<open>sample_val\<close>. The constant \<open>0x1\<close> is a 32-bit \<open>int\<close>, so \<open>0x1 << n\<close> is a 32-bit
  shift whose result is converted to \<open>uint64_t\<close> with sign extension (\<open>scast\<close>); for
  \<open>n = 31\<close> the shift reaches the sign bit, which the C standard leaves undefined and
  GCC defines as the two's-complement result, the one taken here. A shift count that is
  negative or at least the width is undefined in C; \<open>push_bit\<close> of \<open>nat n\<close> gives it
  some value. The conversion \<open>(sample_t)\<close> of a \<open>uint64_t\<close> keeps the low 32 bits.

  The FFT branch ends in \<open>(sample_t)round(sqrt(pow(lval, 2) + pow(upval, 2)))\<close>, which is
  computed in \<open>double\<close> by libm. That computation is the parameter \<open>mag\<close>, applied to
  \<open>lval\<close> and \<open>upval\<close>.
\<close>

type_synonym magnitude = "sample_t \<Rightarrow> sample_t \<Rightarrow> sample_t"

text \<open>
  The expression \<open>(sample_t)(-(x & mask) + (x & ~mask))\<close>, which \<open>sample_val\<close> applies
  to \<open>uval\<close>, \<open>luval\<close> and \<open>uuval\<close>.
\<close>

definition twos :: "64 word \<Rightarrow> 64 word \<Rightarrow> sample_t" where
  "twos mask' u = ucast (- (u AND mask') + (u AND NOT mask'))"

definition sample_val :: "magnitude \<Rightarrow> state \<Rightarrow> 64 word \<Rightarrow> sample_t" where
  "sample_val mag s u =
     (let mask' = (scast (push_bit (nat (sample_bits s - 1)) (1 :: 32 word)) :: 64 word)
      in if fft s = 0 then twos mask' u
         else
           let lumask = (scast (push_bit (nat (sample_bits s)) (1 :: 32 word) - 1) :: 64 word);
               luval = u AND lumask;
               lval = twos mask' luval;
               uumask = push_bit (nat (sample_bits s)) lumask;
               uuval = drop_bit (nat (sample_bits s)) (u AND uumask);
               upval = twos mask' uuval
           in mag lval upval)"

subsection \<open>Frame parser\<close>

definition inc_check_idx :: "int \<Rightarrow> int \<Rightarrow> int" where
  "inc_check_idx read_idx len = (if read_idx + 1 = len then FALSE else read_idx + 1)"

text \<open>
  A chunk \<open>(buffer, length)\<close> is a list of bytes, and \<open>length\<close> is its length.
  \<open>buffer[read_idx]\<close> outside the chunk is undefined in C; the model makes it \<open>None\<close>,
  and so is the result of a parsing function that performs such a read.
\<close>

definition byte_at :: "byte list \<Rightarrow> int \<Rightarrow> byte option" where
  "byte_at buffer read_idx =
     (if 0 \<le> read_idx \<and> read_idx < int (length buffer) then Some (buffer ! nat read_idx)
      else None)"

function read_start_seq :: "byte list \<Rightarrow> int \<Rightarrow> state \<Rightarrow> (int \<times> state) option" where
  "read_start_seq buffer read_idx s =
     (if start_flags s < nflags s then
        (case byte_at buffer read_idx of
           None \<Rightarrow> None
         | Some b \<Rightarrow>
             let s1 = (if b = START_FLAG then s\<lparr>start_flags := start_flags s + 1\<rparr>
                       else s\<lparr>start_flags := 0\<rparr>);
                 read_idx1 = inc_check_idx read_idx (int (length buffer))
             in if read_idx1 = 0 then Some (FALSE, s1)
                else read_start_seq buffer read_idx1 s1)
      else Some (read_idx, s))"
  by pat_completeness auto
termination
  by (relation "measure (\<lambda>(buffer, read_idx, s). nat (int (length buffer) - read_idx))")
     (auto simp: byte_at_def inc_check_idx_def split: if_splits)

declare read_start_seq.simps [simp del]

text \<open>
  The two nested loops of \<open>read_sample_seq\<close> as one recursion: the first branch is one
  turn of the inner loop (one byte into \<open>uval\<close>), the second is the rest of the outer
  loop's body, run when the inner loop's test fails.
\<close>

function read_sample_seq ::
  "magnitude \<Rightarrow> byte list \<Rightarrow> int \<Rightarrow> state \<Rightarrow> (int \<times> state) option" where
  "read_sample_seq mag buffer read_idx s =
     (if sweep_idx s < sweep_len s then
        (if byte_idx s < sample_bytes_var s then
           (case byte_at buffer read_idx of
              None \<Rightarrow> None
            | Some b \<Rightarrow>
                let s1 = s\<lparr>uval := uval s OR
                             push_bit (nat (BYTE_BITS * (sample_bytes_var s - 1 - byte_idx s)))
                               (ucast b :: 64 word),
                           byte_idx := byte_idx s + 1\<rparr>;
                    read_idx1 = inc_check_idx read_idx (int (length buffer))
                in if read_idx1 = 0 then Some (FALSE, s1)
                   else read_sample_seq mag buffer read_idx1 s1)
         else
           let s1 = s\<lparr>byte_idx := 0\<rparr>;
               s2 = (if sweep_idx s1 < sweep_len s1 - 1
                     then s1\<lparr>sweep := (sweep s1)(sweep_idx s1 \<mapsto> sample_val mag s1 (uval s1))\<rparr>
                     else s1\<lparr>last_sample := sample_val mag s1 (uval s1)\<rparr>);
               s3 = s2\<lparr>sweep_idx := sweep_idx s2 + 1, uval := 0\<rparr>
           in read_sample_seq mag buffer read_idx s3)
      else Some (read_idx, s))"
  by pat_completeness auto
termination
  by (relation "measures [\<lambda>(mag, buffer, read_idx, s). nat (sweep_len s - sweep_idx s),
                          \<lambda>(mag, buffer, read_idx, s). nat (sample_bytes_var s - byte_idx s)]")
     (auto split: if_splits)

declare read_sample_seq.simps [simp del]

text \<open>
  The label \<open>cleanup\<close> of \<open>read_stop_seq\<close>, and the two statements before it that a
  completed stop run executes.
\<close>

definition cleanup :: "state \<Rightarrow> state" where
  "cleanup s = s\<lparr>sweep_idx := 0, start_flags := 0, stop_flags := 0\<rparr>"

definition commit :: "state \<Rightarrow> state" where
  "commit s =
     (let s1 = s\<lparr>sweep_valid := 1\<rparr>;
          s2 = s1\<lparr>sweep := (sweep s1)(sweep_idx s1 \<mapsto> last_sample s1)\<rparr>
      in cleanup s2)"

function read_stop_seq :: "byte list \<Rightarrow> int \<Rightarrow> state \<Rightarrow> (int \<times> state) option" where
  "read_stop_seq buffer read_idx s =
     (if stop_flags s < nflags s then
        (case byte_at buffer read_idx of
           None \<Rightarrow> None
         | Some b \<Rightarrow>
             if b = STOP_FLAG then
               let s1 = s\<lparr>stop_flags := stop_flags s + 1\<rparr> in
               if stop_flags s1 < nflags s1 then
                 let read_idx1 = inc_check_idx read_idx (int (length buffer))
                 in if read_idx1 = 0 then Some (FALSE, s1)
                    else read_stop_seq buffer read_idx1 s1
               else read_stop_seq buffer read_idx s1
             else Some (inc_check_idx read_idx (int (length buffer)), cleanup s))
      else Some (read_idx, commit s))"
  by pat_completeness auto
termination
  by (relation "measure (\<lambda>(buffer, read_idx, s). nat (nflags s - stop_flags s))") auto

declare read_stop_seq.simps [simp del]

subsection \<open>The read callback\<close>

text \<open>
  The body of \<open>while (1)\<close> in \<open>callback\<close>. Every path through it ends in \<open>goto log\<close>, so
  it runs once for each chunk; its result is the \<open>read_idx\<close> that reaches the label.
\<close>

definition parse_chunk ::
  "magnitude \<Rightarrow> byte list \<Rightarrow> int \<Rightarrow> state \<Rightarrow> (int \<times> state) option" where
  "parse_chunk mag buffer read_idx s =
     (if stop_flags s \<noteq> 0 then read_stop_seq buffer read_idx s
      else if sweep_idx s \<noteq> 0 then
        (case read_sample_seq mag buffer read_idx s of
           None \<Rightarrow> None
         | Some (read_idx1, s1) \<Rightarrow>
             if read_idx1 = 0 then Some (read_idx1, s1)
             else read_stop_seq buffer read_idx1 s1)
      else
        (case read_start_seq buffer read_idx s of
           None \<Rightarrow> None
         | Some (read_idx1, s1) \<Rightarrow>
             if read_idx1 = 0 then Some (read_idx1, s1)
             else
               (case read_sample_seq mag buffer read_idx1 s1 of
                  None \<Rightarrow> None
                | Some (read_idx2, s2) \<Rightarrow>
                    if read_idx2 = 0 then Some (read_idx2, s2)
                    else read_stop_seq buffer read_idx2 s2)))"

text \<open>
  The label \<open>log\<close>: \<open>fwrite\<close> appends the first \<open>length\<close> or \<open>read_idx\<close> bytes of the
  chunk to the log file.
\<close>

definition log_chunk :: "byte list \<Rightarrow> int \<Rightarrow> state \<Rightarrow> state" where
  "log_chunk buffer read_idx s =
     (if log_file s \<noteq> 0 then
        (if read_idx = 0 then s\<lparr>log_data := log_data s @ take (length buffer) buffer\<rparr>
         else s\<lparr>log_data := log_data s @ take (nat read_idx) buffer\<rparr>)
      else s)"

definition callback :: "magnitude \<Rightarrow> byte list \<Rightarrow> state \<Rightarrow> (int \<times> state) option" where
  "callback mag buffer s =
     (if cancel s \<noteq> 0 then Some (1, s)
      else if int (length buffer) = 0 \<or> sweep_valid s \<noteq> 0 then Some (0, s)
      else
        (case parse_chunk mag buffer 0 s of
           None \<Rightarrow> None
         | Some (read_idx, s1) \<Rightarrow> Some (0, log_chunk buffer read_idx s1)))"

text \<open>
  The branch of \<open>callback\<close> that a state takes, under the names of the three phases of
  the parser.
\<close>

datatype phase = AwaitStop | ReadSamples | AwaitStart

definition phase_of :: "state \<Rightarrow> phase" where
  "phase_of s =
     (if stop_flags s \<noteq> 0 then AwaitStop
      else if sweep_idx s \<noteq> 0 then ReadSamples
      else AwaitStart)"

text \<open>
  \<open>producer\<close> hands \<open>callback\<close> to \<open>ftdi_readstream\<close> of libftdi, which calls it with one
  chunk after the other until it returns a value other than 0.
\<close>

fun ftdi_readstream :: "magnitude \<Rightarrow> byte list list \<Rightarrow> state \<Rightarrow> state option" where
  "ftdi_readstream mag [] s = Some s"
| "ftdi_readstream mag (buffer # rest) s =
     (case callback mag buffer s of
        None \<Rightarrow> None
      | Some (ret, s1) \<Rightarrow> if ret \<noteq> 0 then Some s1 else ftdi_readstream mag rest s1)"

subsection \<open>The consumer's side\<close>

text \<open>
  The caller's array \<open>arr\<close> is memory indexed like \<open>sweep\<close>. The loop of
  \<open>fmcw_read_sweep\<close> copies cell by cell from index \<open>i\<close> on.
\<close>

function copy_sweep ::
  "int \<Rightarrow> state \<Rightarrow> (int \<Rightarrow> sample_t option) \<Rightarrow> (int \<Rightarrow> sample_t option)" where
  "copy_sweep i s arr =
     (if i < sweep_len s then copy_sweep (i + 1) s (arr(i := sweep s i)) else arr)"
  by pat_completeness auto
termination
  by (relation "measure (\<lambda>(i, s, arr). nat (sweep_len s - i))") auto

declare copy_sweep.simps [simp del]

definition fmcw_read_sweep ::
  "(int \<Rightarrow> sample_t option) \<Rightarrow> state \<Rightarrow> int \<times> (int \<Rightarrow> sample_t option) \<times> state" where
  "fmcw_read_sweep arr s =
     (if sweep_valid s \<noteq> 0 then (TRUE, copy_sweep 0 s arr, s\<lparr>sweep_valid := 0\<rparr>)
      else (FALSE, arr, s))"

subsection \<open>Starting the acquisition\<close>

text \<open>
  \<open>fopen_w path\<close> is what \<open>fopen(path, "w")\<close> returns: the address of the stream, or 0
  (\<open>NULL\<close>) when the file cannot be opened. The code tests the returned pointer with
  \<open>< 0\<close>; an address is a \<open>nat\<close>. Opening with \<open>"w"\<close> empties the file.
  \<open>malloc\<close> returns a block of \<open>sweep_len\<close> elements, none of them written.
\<close>

definition fmcw_start_acquisition ::
  "(string \<Rightarrow> nat) \<Rightarrow> string option \<Rightarrow> int \<Rightarrow> int \<Rightarrow> int \<Rightarrow> state \<Rightarrow> int \<times> state" where
  "fmcw_start_acquisition fopen_w log_path sample_bits0 sweep_len0 fft0 s =
     (let s1 = s\<lparr>fft := fft0\<rparr>;
          s2 = s1\<lparr>sample_bits := sample_bits0\<rparr>;
          s3 = s2\<lparr>sample_bytes_var := sample_bytes s2 (sample_bits s2)\<rparr>;
          s4 = s3\<lparr>nflags := num_flags s3 (sample_bits s3)\<rparr>;
          s5 = s4\<lparr>sweep_len := sweep_len0\<rparr>;
          s6 = (case log_path of
                  None \<Rightarrow> s5
                | Some path \<Rightarrow> s5\<lparr>log_file := fopen_w path, log_data := []\<rparr>)
      in if log_path \<noteq> None \<and> log_file s6 < 0 then (FALSE, s6)
         else
           let s7 = s6\<lparr>sweep := Map.empty, sweep_size := sweep_len s6\<rparr>;
               s8 = s7\<lparr>producer_running := True\<rparr>
           in (TRUE, s8))"

subsection \<open>Concrete configurations and chunks\<close>

text \<open>
  A magnitude for closed examples in real mode (\<open>fft = 0\<close>), where \<open>sample_val\<close> never
  calls it; an \<open>fopen\<close> that fails on every path and one that succeeds on every path.
\<close>

definition mag_unused :: magnitude where
  "mag_unused lval upval = 0"

definition fopen_null :: "string \<Rightarrow> nat" where
  "fopen_null path = 0"

definition fopen_ok :: "string \<Rightarrow> nat" where
  "fopen_ok path = 1"

text \<open>
  The state of a fresh process after \<open>fmcw_start_acquisition(NULL, sample_bits, 2, 0)\<close> for
  \<open>sample_bits\<close> 7, 8 and 12, and after \<open>fmcw_start_acquisition("log.bin", 8, 2, 0)\<close> with
  a log file that opens.
\<close>

definition real7 :: state where
  "real7 = snd (fmcw_start_acquisition fopen_null None 7 2 0 init_state)"

definition real8 :: state where
  "real8 = snd (fmcw_start_acquisition fopen_null None 8 2 0 init_state)"

definition real12 :: state where
  "real12 = snd (fmcw_start_acquisition fopen_null None 12 2 0 init_state)"

definition real8_logged :: state where
  "real8_logged = snd (fmcw_start_acquisition fopen_ok (Some ''log.bin'') 8 2 0 init_state)"

text \<open>
  The frame \<open>FF FF 05 7A 8F 8F\<close>: two start flags, the one-byte samples 5 and 122, two
  stop flags.
\<close>

definition nominal_chunk :: "byte list" where
  "nominal_chunk = [0xFF, 0xFF, 0x05, 0x7A, 0x8F, 0x8F]"

text \<open>
  With 12-bit samples (two bytes each, two flags): the state in which a chunk has ended
  after the start flags and the first byte of the first sample.
\<close>

definition split_first :: state where
  "split_first = real12\<lparr>start_flags := 2, byte_idx := 1\<rparr>"

subsection \<open>Relations between states\<close>

text \<open>
  What a call of \<open>read_sample_seq\<close> that returns \<open>read_idx'\<close> does to the state: the
  configuration, the stop counter and the valid flag stay, \<open>sweep_idx\<close> grows, up to
  \<open>sweep_len\<close> when the call returns a non-zero index, and no cell of \<open>sweep\<close> from index
  \<open>sweep_len - 1\<close> on is written.
\<close>

definition samples_step :: "state \<Rightarrow> int \<Rightarrow> state \<Rightarrow> bool" where
  "samples_step s r' s' \<longleftrightarrow>
     sweep_len s' = sweep_len s \<and> nflags s' = nflags s \<and> stop_flags s' = stop_flags s \<and>
     sweep_valid s' = sweep_valid s \<and> sweep_size s' = sweep_size s \<and>
     sweep_idx s \<le> sweep_idx s' \<and>
     (sweep_idx s \<le> sweep_len s \<longrightarrow> sweep_idx s' \<le> sweep_len s) \<and>
     (r' \<noteq> 0 \<longrightarrow> sweep_len s \<le> sweep_idx s') \<and>
     (\<forall>i. sweep_len s - 1 \<le> i \<longrightarrow> sweep s' i = sweep s i)"

text \<open>
  What a call of \<open>read_stop_seq\<close> does to the state: it ends inside the stop run, or at a
  byte that is not a stop flag (\<open>cleanup\<close> alone), or with the commit, which writes
  \<open>last_sample\<close> at index \<open>sweep_idx\<close>.
\<close>

definition stop_step :: "state \<Rightarrow> state \<Rightarrow> bool" where
  "stop_step s s' \<longleftrightarrow>
     sweep_len s' = sweep_len s \<and> sweep_size s' = sweep_size s \<and>
     last_sample s' = last_sample s \<and>
     (0 < stop_flags s' \<and> sweep_idx s' = sweep_idx s \<and> sweep s' = sweep s \<and>
        sweep_valid s' = sweep_valid s
      \<or> stop_flags s' = 0 \<and> sweep_idx s' = 0 \<and> sweep s' = sweep s \<and>
        sweep_valid s' = sweep_valid s
      \<or> stop_flags s' = 0 \<and> sweep_idx s' = 0 \<and>
        sweep s' = (sweep s)(sweep_idx s \<mapsto> last_sample s) \<and> sweep_valid s' = 1)"

text \<open>
  An invariant of the parser for \<open>sweep_len \<ge> 1\<close>: while a stop run is being counted
  \<open>sweep_idx\<close> is \<open>sweep_len\<close>, and cell \<open>sweep_len - 1\<close> of \<open>sweep\<close> has not been written.
\<close>

definition parser_inv :: "state \<Rightarrow> bool" where
  "parser_inv s \<longleftrightarrow>
     1 \<le> sweep_len s \<and> 0 \<le> stop_flags s \<and> sweep_idx s \<le> sweep_len s \<and>
     (stop_flags s \<noteq> 0 \<longrightarrow> sweep_idx s = sweep_len s) \<and>
     sweep s (sweep_len s - 1) = None"

text \<open>
  What one chunk does: the size of the sweep stays, and if the valid flag changes, the
  cell at index \<open>sweep_len\<close> holds \<open>last_sample\<close>.
\<close>

definition published_at_sweep_len :: "state \<Rightarrow> state \<Rightarrow> bool" where
  "published_at_sweep_len s s' \<longleftrightarrow>
     sweep_len s' = sweep_len s \<and> sweep_size s' = sweep_size s \<and>
     (sweep_valid s' \<noteq> sweep_valid s \<longrightarrow> sweep s' (sweep_len s) = Some (last_sample s'))"

section \<open>Properties\<close>

subsection \<open>Evaluation of the configurations\<close>

lemmas start_defs =
  fmcw_start_acquisition_def init_state_def sample_bytes_def num_flags_def
  c_div_def c_mod_def pow2ceil_def pow2ceil_loop.simps fopen_null_def fopen_ok_def

lemmas parse_defs =
  callback_def parse_chunk_def log_chunk_def byte_at_def inc_check_idx_def
  read_start_seq.simps read_sample_seq.simps read_stop_seq.simps
  sample_val_def twos_def commit_def cleanup_def nominal_chunk_def

lemma real7_eq:
  "real7 = init_state\<lparr>sample_bits := 7, sample_bytes_var := 1, nflags := 1, sweep_len := 2,
     sweep_size := 2, producer_running := True\<rparr>"
  by (simp add: real7_def start_defs)

lemma real8_eq:
  "real8 = init_state\<lparr>sample_bits := 8, sample_bytes_var := 1, nflags := 2, sweep_len := 2,
     sweep_size := 2, producer_running := True\<rparr>"
  by (simp add: real8_def start_defs)

lemma real12_eq:
  "real12 = init_state\<lparr>sample_bits := 12, sample_bytes_var := 2, nflags := 2, sweep_len := 2,
     sweep_size := 2, producer_running := True\<rparr>"
  by (simp add: real12_def start_defs)

lemma real8_logged_eq:
  "real8_logged = init_state\<lparr>sample_bits := 8, sample_bytes_var := 1, nflags := 2,
     sweep_len := 2, log_file := 1, sweep_size := 2, producer_running := True\<rparr>"
  by (simp add: real8_logged_def start_defs)

subsection \<open>Codec\<close>

lemma pow2ceil_small:
  "pow2ceil 1 = 1" "pow2ceil 2 = 2" "pow2ceil 3 = 4" "pow2ceil 4 = 4" "pow2ceil 5 = 8"
  "pow2ceil 6 = 8" "pow2ceil 7 = 8" "pow2ceil 8 = 8" "pow2ceil 9 = 16"
  by (simp_all add: pow2ceil_def pow2ceil_loop.simps)

lemma c_div_nonneg: "0 \<le> a \<Longrightarrow> c_div a 8 = a div 8"
  by (simp add: c_div_def sgn_if)

lemma c_mod_nonneg: "0 \<le> a \<Longrightarrow> c_mod a 8 = a mod 8"
  by (simp add: c_mod_def c_div_nonneg minus_mult_div_eq_mod)

lemma num_flags_nonneg:
  "0 \<le> sb \<Longrightarrow>
     num_flags s sb = pow2ceil ((if fft s \<noteq> 0 then sb * 2 else sb) div 8 + 1)"
  by (simp add: num_flags_def c_div_nonneg Let_def)

lemma sample_bytes_nonneg:
  "0 \<le> sb \<Longrightarrow>
     sample_bytes s sb =
       pow2ceil (if (if fft s \<noteq> 0 then sb * 2 else sb) mod 8 \<noteq> 0
                 then (if fft s \<noteq> 0 then sb * 2 else sb) div 8 + 1
                 else (if fft s \<noteq> 0 then sb * 2 else sb) div 8)"
  by (simp add: sample_bytes_def c_div_nonneg c_mod_nonneg Let_def)

lemma codec_by_width:
  fixes w :: int
  assumes "1 \<le> w" "w \<le> 64"
  shows "pow2ceil (if w mod 8 \<noteq> 0 then w div 8 + 1 else w div 8) \<le> pow2ceil (w div 8 + 1) \<and>
         (pow2ceil (if w mod 8 \<noteq> 0 then w div 8 + 1 else w div 8) < pow2ceil (w div 8 + 1)
            \<longleftrightarrow> w \<in> {8, 16, 32, 64})"
proof -
  have q: "w div 8 \<in> {0, 1, 2, 3, 4, 5, 6, 7, 8}" using assms by auto
  show ?thesis
  proof (cases "w mod 8 = 0")
    case True
    then have w: "w = 8 * (w div 8)" by presburger
    from q True assms show ?thesis
      by (elim insertE emptyE) (use w in \<open>simp_all add: pow2ceil_small\<close>)
  next
    case False
    then have "w \<notin> {8, 16, 32, 64}" by auto
    with False show ?thesis by simp
  qed
qed

text \<open>
  C8, as the code has it. The claim that the flag run is strictly longer than a sample
  fails: for 7-bit real samples both \<open>num_flags\<close> and \<open>sample_bytes\<close> are 1.
\<close>

theorem nflags_sb7_counterexample:
  "fft init_state = 0 \<and> num_flags init_state 7 = 1 \<and> sample_bytes init_state 7 = 1 \<and>
   \<not> num_flags init_state 7 > sample_bytes init_state 7"
  by (simp add: start_defs)

text \<open>
  C8, amended: for every \<open>sample_bits\<close> from 1 to 32 and both modes the flag run is at
  least as long as a sample, and it is strictly longer exactly when the payload width
  (\<open>sample_bits\<close>, doubled in FFT mode) is 8, 16, 32 or 64 bits.
\<close>

theorem num_flags_ge_sample_bytes:
  assumes "1 \<le> sb" "sb \<le> 32"
  shows "sample_bytes s sb \<le> num_flags s sb \<and>
         (sample_bytes s sb < num_flags s sb \<longleftrightarrow>
            (if fft s \<noteq> 0 then sb * 2 else sb) \<in> {8, 16, 32, 64})"
proof -
  have "1 \<le> (if fft s \<noteq> 0 then sb * 2 else sb)" "(if fft s \<noteq> 0 then sb * 2 else sb) \<le> 64"
    using assms by simp_all
  from codec_by_width [OF this] assms(1) show ?thesis
    by (simp only: num_flags_nonneg sample_bytes_nonneg)
qed

text \<open>
  Witness for C8: 7-bit real samples, where the two lengths are equal.
\<close>

theorem num_flags_ge_sample_bytes_witness:
  "(1::int) \<le> 7 \<and> (7::int) \<le> 32 \<and>
   sample_bytes init_state 7 \<le> num_flags init_state 7 \<and>
   \<not> sample_bytes init_state 7 < num_flags init_state 7"
  using num_flags_ge_sample_bytes [of 7 init_state] by (simp add: init_state_def)

subsection \<open>Decoding a real-mode sample\<close>

lemma sign_mask_bit:
  assumes "n \<le> 31"
  shows "bit (scast (2 ^ n :: 32 word) :: 64 word) k \<longleftrightarrow>
           k < 64 \<and> (k = n \<or> (n = 31 \<and> 31 < k))"
  using assms by (simp add: bit_word_scast_iff bit_exp_iff possible_bit_word) arith

lemma and_sign_mask:
  assumes "n \<le> 31"
  shows "(word_of_int (take_bit (Suc n) v) :: 64 word) AND scast (2 ^ n :: 32 word)
         = word_of_int (2 ^ n * of_bool (bit v n))"
proof (rule bit_word_eqI)
  fix k assume "k < LENGTH(64)"
  then show "bit ((word_of_int (take_bit (Suc n) v) :: 64 word) AND scast (2 ^ n :: 32 word)) k
      = bit (word_of_int (2 ^ n * of_bool (bit v n)) :: 64 word) k"
    using assms
    by (cases "bit v n")
       (auto simp add: bit_and_iff sign_mask_bit bit_word_of_int_iff bit_take_bit_iff bit_exp_iff)
qed

lemma and_not_sign_mask:
  assumes "n \<le> 31"
  shows "(word_of_int (take_bit (Suc n) v) :: 64 word) AND NOT (scast (2 ^ n :: 32 word))
         = word_of_int (take_bit n v)"
proof (rule bit_word_eqI)
  fix k assume "k < LENGTH(64)"
  then show "bit ((word_of_int (take_bit (Suc n) v) :: 64 word)
                    AND NOT (scast (2 ^ n :: 32 word))) k
      = bit (word_of_int (take_bit n v) :: 64 word) k"
    using assms
    by (auto simp add: bit_and_iff bit_not_iff sign_mask_bit bit_word_of_int_iff
          bit_take_bit_iff less_Suc_eq)
qed

lemma twos_decode:
  assumes "n \<le> 31" "- (2 ^ n) \<le> v" "v < 2 ^ n"
  shows "twos (scast (2 ^ n :: 32 word)) (word_of_int (v mod 2 ^ Suc n)) = word_of_int v"
proof -
  have "signed_take_bit n v = v"
    using assms by (simp add: signed_take_bit_int_eq_self)
  then have "take_bit (Suc n) v - 2 ^ Suc n * of_bool (bit v n) = v"
    by (simp only: signed_take_bit_eq_take_bit_minus)
  then have v: "take_bit n v - 2 ^ n * of_bool (bit v n) = v"
    by (cases "bit v n") (simp_all add: take_bit_Suc_from_most)
  have "twos (scast (2 ^ n :: 32 word)) (word_of_int (take_bit (Suc n) v))
        = ucast (word_of_int (take_bit n v - 2 ^ n * of_bool (bit v n)) :: 64 word)"
    unfolding twos_def and_sign_mask [OF assms(1)] and_not_sign_mask [OF assms(1)]
    by simp
  also have "\<dots> = ucast (word_of_int v :: 64 word)"
    by (simp only: v)
  also have "\<dots> = word_of_int v"
    by (simp add: ucast_down_wi is_down)
  finally show ?thesis by (simp only: take_bit_eq_mod)
qed

text \<open>
  C9: in real mode, for \<open>sample_bits\<close> from 1 to 32 and every \<open>v\<close> with
  \<open>-2^(sample_bits-1) \<le> v < 2^(sample_bits-1)\<close>, \<open>sample_val\<close> of the 64-bit word whose low
  \<open>sample_bits\<close> bits are the two's-complement encoding of \<open>v\<close> and whose other bits are
  zero is \<open>v\<close>.
\<close>

theorem sample_val_real_roundtrip:
  assumes "1 \<le> sample_bits s" "sample_bits s \<le> 32" "fft s = 0"
    and "- (2 ^ nat (sample_bits s - 1)) \<le> v" "v < 2 ^ nat (sample_bits s - 1)"
  shows "sint (sample_val mag s (word_of_int (v mod 2 ^ nat (sample_bits s)))) = v"
proof -
  define n where "n = nat (sample_bits s - 1)"
  have n: "n \<le> 31" "nat (sample_bits s) = Suc n"
    using assms(1,2) by (simp_all add: n_def)
  have "sample_val mag s (word_of_int (v mod 2 ^ nat (sample_bits s))) = word_of_int v"
    using assms(3-5) twos_decode [of n v] n by (simp add: sample_val_def n_def)
  moreover have "- (2 ^ 31) \<le> v" "v < 2 ^ 31"
  proof -
    have "(2::int) ^ n \<le> 2 ^ 31" using n(1) by (intro power_increasing) simp_all
    then show "- (2 ^ 31) \<le> v" "v < 2 ^ 31" using assms(4,5) by (simp_all add: n_def)
  qed
  ultimately show ?thesis
    by (simp add: sint_sbintrunc' signed_take_bit_int_eq_self)
qed

text \<open>
  Witness for C9: 12-bit samples, \<open>v = -5\<close>, encoded as \<open>0xFFB\<close>.
\<close>

theorem sample_val_real_roundtrip_witness:
  "1 \<le> sample_bits real12 \<and> sample_bits real12 \<le> 32 \<and> fft real12 = 0 \<and>
   - (2 ^ nat (sample_bits real12 - 1)) \<le> (- 5 :: int) \<and>
   (- 5 :: int) < 2 ^ nat (sample_bits real12 - 1) \<and>
   sint (sample_val mag_unused real12 0xFFB) = - 5"
  using sample_val_real_roundtrip [of real12 "- 5" mag_unused]
  by (simp add: real12_eq init_state_def)

subsection \<open>The consumer's read\<close>

lemma copy_sweep_eq:
  "copy_sweep i s arr = (\<lambda>j. if i \<le> j \<and> j < sweep_len s then sweep s j else arr j)"
proof (induction i s arr rule: copy_sweep.induct)
  case (1 i s arr)
  show ?case
  proof (cases "i < sweep_len s")
    case True
    then have "copy_sweep i s arr = copy_sweep (i + 1) s (arr(i := sweep s i))"
      by (subst copy_sweep.simps) simp
    also have "\<dots> = (\<lambda>j. if i + 1 \<le> j \<and> j < sweep_len s then sweep s j
                          else (arr(i := sweep s i)) j)"
      using True by (rule "1.IH")
    also have "\<dots> = (\<lambda>j. if i \<le> j \<and> j < sweep_len s then sweep s j else arr j)"
      using True by (auto simp add: fun_eq_iff)
    finally show ?thesis .
  next
    case False
    then have "copy_sweep i s arr = arr"
      by (subst copy_sweep.simps) simp
    with False show ?thesis by (auto simp add: fun_eq_iff)
  qed
qed

text \<open>
  C10: when the slot is not valid, \<open>fmcw_read_sweep\<close> returns \<open>FALSE\<close> and leaves the
  caller's array and the whole state, slot included, as they were; when it is valid, it
  returns \<open>TRUE\<close>, the array holds the slot's cells \<open>0 ..< sweep_len\<close> (its other cells
  are as before), and only the valid flag of the state changes, to 0.
\<close>

theorem fmcw_read_sweep_effect:
  "fmcw_read_sweep arr s =
     (if sweep_valid s = 0 then (FALSE, arr, s)
      else (TRUE, (\<lambda>i. if 0 \<le> i \<and> i < sweep_len s then sweep s i else arr i),
            s\<lparr>sweep_valid := 0\<rparr>))"
  by (simp add: fmcw_read_sweep_def copy_sweep_eq)

subsection \<open>Reads stay inside the chunk\<close>

text \<open>
  Started inside the chunk, each parsing function reads only inside it and returns an
  index inside it, so \<open>callback\<close> always returns.
\<close>

lemma byte_at_Some:
  "0 \<le> r \<Longrightarrow> r < int (length buffer) \<Longrightarrow> byte_at buffer r = Some (buffer ! nat r)"
  by (simp add: byte_at_def)

lemma inc_check_idx_cases:
  assumes "0 \<le> r" "r < len"
  obtains "inc_check_idx r len = 0" "r + 1 = len"
  | "inc_check_idx r len = r + 1" "r + 1 < len"
  using assms by (cases "r + 1 = len") (auto simp add: inc_check_idx_def)

lemma read_start_seq_total:
  "0 \<le> r \<Longrightarrow> r < int (length buffer) \<Longrightarrow>
     \<exists>r' s'. read_start_seq buffer r s = Some (r', s') \<and> 0 \<le> r' \<and> r' < int (length buffer)"
proof (induction buffer r s rule: read_start_seq.induct)
  case (1 buffer read_idx s)
  show ?case
  proof (cases "start_flags s < nflags s")
    case False
    with "1.prems" show ?thesis by (subst read_start_seq.simps) simp
  next
    case True
    define s1 where "s1 = (if buffer ! nat read_idx = START_FLAG
        then s\<lparr>start_flags := start_flags s + 1\<rparr> else s\<lparr>start_flags := 0\<rparr>)"
    note b = byte_at_Some [OF "1.prems"]
    from "1.prems" show ?thesis
    proof (cases rule: inc_check_idx_cases)
      case 1
      with True b "1.prems" show ?thesis
        by (subst read_start_seq.simps) (auto simp add: Let_def)
    next
      case 2
      have "\<exists>r' s'. read_start_seq buffer (read_idx + 1) s1 = Some (r', s')
               \<and> 0 \<le> r' \<and> r' < int (length buffer)"
        using "1.IH" [OF True b s1_def "2"(1) [symmetric]] "1.prems" "2"
        by simp
      with True b "2" "1.prems" show ?thesis
        by (subst read_start_seq.simps) (simp add: Let_def s1_def)
    qed
  qed
qed

lemma read_sample_seq_total:
  "0 \<le> r \<Longrightarrow> r < int (length buffer) \<Longrightarrow>
     \<exists>r' s'. read_sample_seq mag buffer r s = Some (r', s') \<and> 0 \<le> r' \<and> r' < int (length buffer)"
proof (induction mag buffer r s rule: read_sample_seq.induct)
  case (1 mag buffer read_idx s)
  show ?case
  proof (cases "sweep_idx s < sweep_len s")
    case False
    with "1.prems" show ?thesis by (subst read_sample_seq.simps) simp
  next
    case outer: True
    show ?thesis
    proof (cases "byte_idx s < sample_bytes_var s")
      case inner: True
      define s1 where "s1 = s\<lparr>uval := uval s OR
                             push_bit (nat (BYTE_BITS * (sample_bytes_var s - 1 - byte_idx s)))
                               (ucast (buffer ! nat read_idx) :: 64 word),
                           byte_idx := byte_idx s + 1\<rparr>"
      note b = byte_at_Some [OF "1.prems"]
      from "1.prems" show ?thesis
      proof (cases rule: inc_check_idx_cases)
        case 1
        with outer inner b "1.prems" show ?thesis
          by (subst read_sample_seq.simps) (auto simp add: Let_def)
      next
        case 2
        have "\<exists>r' s'. read_sample_seq mag buffer (read_idx + 1) s1 = Some (r', s')
               \<and> 0 \<le> r' \<and> r' < int (length buffer)"
          using "1.IH"(1) [OF outer inner b s1_def "2"(1) [symmetric]] "1.prems" "2"
          by simp
        with outer inner b "2" "1.prems" show ?thesis
          by (subst read_sample_seq.simps) (simp add: Let_def s1_def)
      qed
    next
      case inner: False
      define s1 where "s1 = s\<lparr>byte_idx := 0\<rparr>"
      define s2 where "s2 = (if sweep_idx s1 < sweep_len s1 - 1
                     then s1\<lparr>sweep := (sweep s1)(sweep_idx s1 \<mapsto> sample_val mag s1 (uval s1))\<rparr>
                     else s1\<lparr>last_sample := sample_val mag s1 (uval s1)\<rparr>)"
      define s3 where "s3 = s2\<lparr>sweep_idx := sweep_idx s2 + 1, uval := 0\<rparr>"
      have "\<exists>r' s'. read_sample_seq mag buffer read_idx s3 = Some (r', s')
               \<and> 0 \<le> r' \<and> r' < int (length buffer)"
        using "1.IH"(2) [OF outer inner s1_def s2_def s3_def] "1.prems" by simp
      moreover have "read_sample_seq mag buffer read_idx s = read_sample_seq mag buffer read_idx s3"
        using outer inner
        by (subst read_sample_seq.simps) (simp add: Let_def s1_def s2_def s3_def)
      ultimately show ?thesis by simp
    qed
  qed
qed

lemma read_stop_seq_total:
  "0 \<le> r \<Longrightarrow> r < int (length buffer) \<Longrightarrow>
     \<exists>r' s'. read_stop_seq buffer r s = Some (r', s') \<and> 0 \<le> r' \<and> r' < int (length buffer)"
proof (induction buffer r s rule: read_stop_seq.induct)
  case (1 buffer read_idx s)
  show ?case
  proof (cases "stop_flags s < nflags s")
    case False
    with "1.prems" show ?thesis by (subst read_stop_seq.simps) simp
  next
    case run: True
    note b = byte_at_Some [OF "1.prems"]
    show ?thesis
    proof (cases "buffer ! nat read_idx = STOP_FLAG")
      case False
      from "1.prems" show ?thesis
      proof (cases rule: inc_check_idx_cases)
        case 1
        with run b False "1.prems" show ?thesis
          by (subst read_stop_seq.simps) auto
      next
        case 2
        with run b False "1.prems" show ?thesis
          by (subst read_stop_seq.simps) auto
      qed
    next
      case flag: True
      define s1 where "s1 = s\<lparr>stop_flags := stop_flags s + 1\<rparr>"
      show ?thesis
      proof (cases "stop_flags s1 < nflags s1")
        case False
        have "\<exists>r' s'. read_stop_seq buffer read_idx s1 = Some (r', s')
               \<and> 0 \<le> r' \<and> r' < int (length buffer)"
          using "1.IH"(2) [OF run b flag s1_def False] "1.prems" by simp
        moreover have "read_stop_seq buffer read_idx s = read_stop_seq buffer read_idx s1"
          using run b flag False
          by (subst read_stop_seq.simps) (simp add: Let_def s1_def)
        ultimately show ?thesis by simp
      next
        case more: True
        from "1.prems" show ?thesis
        proof (cases rule: inc_check_idx_cases)
          case 1
          with run b flag more "1.prems" show ?thesis
            by (subst read_stop_seq.simps) (auto simp add: Let_def s1_def)
        next
          case 2
          have "\<exists>r' s'. read_stop_seq buffer (read_idx + 1) s1 = Some (r', s')
               \<and> 0 \<le> r' \<and> r' < int (length buffer)"
            using "1.IH"(1) [OF run b flag s1_def more "2"(1) [symmetric]] "1.prems" "2"
            by simp
          with run b flag more "2" "1.prems" show ?thesis
            by (subst read_stop_seq.simps) (simp add: Let_def s1_def)
        qed
      qed
    qed
  qed
qed

lemma parse_chunk_total:
  assumes "buffer \<noteq> []"
  shows "\<exists>r' s'. parse_chunk mag buffer 0 s = Some (r', s')"
proof -
  have z: "(0::int) \<le> 0" "0 < int (length buffer)" using assms by simp_all
  note st = read_start_seq_total and sa = read_sample_seq_total and sp = read_stop_seq_total
  show ?thesis
  proof (cases "stop_flags s \<noteq> 0")
    case True
    with sp [OF z, of s] show ?thesis by (auto simp add: parse_chunk_def)
  next
    case nostop: False
    show ?thesis
    proof (cases "sweep_idx s \<noteq> 0")
      case True
      from sa [OF z, of mag s] obtain r1 s1 where
        1: "read_sample_seq mag buffer 0 s = Some (r1, s1)" "0 \<le> r1" "r1 < int (length buffer)"
        by blast
      from sp [OF 1(2,3), of s1] 1 nostop True show ?thesis
        by (auto simp add: parse_chunk_def)
    next
      case False
      from st [OF z, of s] obtain r1 s1 where
        1: "read_start_seq buffer 0 s = Some (r1, s1)" "0 \<le> r1" "r1 < int (length buffer)"
        by blast
      from sa [OF 1(2,3), of mag s1] obtain r2 s2 where
        2: "read_sample_seq mag buffer r1 s1 = Some (r2, s2)" "0 \<le> r2" "r2 < int (length buffer)"
        by blast
      from sp [OF 2(2,3), of s2] 1 2 nostop False show ?thesis
        by (auto simp add: parse_chunk_def)
    qed
  qed
qed

text \<open>
  The parser never fails: for every state and every chunk, \<open>callback\<close> returns a value
  and a state, having read no byte outside the chunk.
\<close>

lemma callback_total: "\<exists>ret s'. callback mag buffer s = Some (ret, s')"
  using parse_chunk_total [of buffer mag s]
  by (cases "buffer = []") (auto simp add: callback_def)

subsection \<open>Where the samples of a sweep are written\<close>

text \<open>
  \<open>read_start_seq\<close> changes \<open>start_flags\<close> and nothing else.
\<close>

lemma read_start_seq_frame:
  "read_start_seq buffer r s = Some (r', s') \<Longrightarrow> \<exists>n. s' = s\<lparr>start_flags := n\<rparr>"
proof (induction buffer r s rule: read_start_seq.induct)
  case (1 buffer read_idx s)
  show ?case
  proof (cases "start_flags s < nflags s")
    case False
    with "1.prems" have "s' = s" by (subst (asm) read_start_seq.simps) simp
    then have "s' = s\<lparr>start_flags := start_flags s\<rparr>" by simp
    then show ?thesis ..
  next
    case True
    with "1.prems" obtain b where b: "byte_at buffer read_idx = Some b"
      by (subst (asm) read_start_seq.simps) (auto split: option.splits)
    define s1 where "s1 = (if b = START_FLAG
        then s\<lparr>start_flags := start_flags s + 1\<rparr> else s\<lparr>start_flags := 0\<rparr>)"
    define r1 where "r1 = inc_check_idx read_idx (int (length buffer))"
    have s1: "\<exists>n. s1 = s\<lparr>start_flags := n\<rparr>" by (auto simp add: s1_def)
    show ?thesis
    proof (cases "r1 = 0")
      case True
      with \<open>start_flags s < nflags s\<close> b "1.prems" have "s' = s1"
        by (subst (asm) read_start_seq.simps) (simp add: Let_def s1_def r1_def)
      with s1 show ?thesis by simp
    next
      case False
      with True b "1.prems" have "read_start_seq buffer r1 s1 = Some (r', s')"
        by (subst (asm) read_start_seq.simps) (simp add: Let_def s1_def r1_def)
      from "1.IH" [OF True b s1_def r1_def False this] s1 show ?thesis by auto
    qed
  qed
qed

lemma read_sample_seq_step:
  "read_sample_seq mag buffer r s = Some (r', s') \<Longrightarrow> samples_step s r' s'"
proof (induction mag buffer r s rule: read_sample_seq.induct)
  case (1 mag buffer read_idx s)
  show ?case
  proof (cases "sweep_idx s < sweep_len s")
    case False
    with "1.prems" have "s' = s" "r' = read_idx" by (subst (asm) read_sample_seq.simps, simp)+
    with False show ?thesis by (simp add: samples_step_def)
  next
    case outer: True
    show ?thesis
    proof (cases "byte_idx s < sample_bytes_var s")
      case inner: True
      with outer "1.prems" obtain b where b: "byte_at buffer read_idx = Some b"
        by (subst (asm) read_sample_seq.simps) (auto split: option.splits)
      define s1 where "s1 = s\<lparr>uval := uval s OR
                             push_bit (nat (BYTE_BITS * (sample_bytes_var s - 1 - byte_idx s)))
                               (ucast b :: 64 word),
                           byte_idx := byte_idx s + 1\<rparr>"
      define r1 where "r1 = inc_check_idx read_idx (int (length buffer))"
      show ?thesis
      proof (cases "r1 = 0")
        case True
        with outer inner b "1.prems" have "s' = s1" "r' = 0"
          by (subst (asm) read_sample_seq.simps, simp add: Let_def s1_def r1_def)+
        then show ?thesis by (simp add: samples_step_def s1_def)
      next
        case False
        with outer inner b "1.prems" have "read_sample_seq mag buffer r1 s1 = Some (r', s')"
          by (subst (asm) read_sample_seq.simps) (simp add: Let_def s1_def r1_def)
        from "1.IH"(1) [OF outer inner b s1_def r1_def False this] show ?thesis
          by (simp add: samples_step_def s1_def)
      qed
    next
      case inner: False
      define s1 where "s1 = s\<lparr>byte_idx := 0\<rparr>"
      define s2 where "s2 = (if sweep_idx s1 < sweep_len s1 - 1
                     then s1\<lparr>sweep := (sweep s1)(sweep_idx s1 \<mapsto> sample_val mag s1 (uval s1))\<rparr>
                     else s1\<lparr>last_sample := sample_val mag s1 (uval s1)\<rparr>)"
      define s3 where "s3 = s2\<lparr>sweep_idx := sweep_idx s2 + 1, uval := 0\<rparr>"
      have "read_sample_seq mag buffer read_idx s = read_sample_seq mag buffer read_idx s3"
        using outer inner
        by (subst read_sample_seq.simps) (simp add: Let_def s1_def s2_def s3_def)
      with "1.prems" have "read_sample_seq mag buffer read_idx s3 = Some (r', s')" by simp
      from "1.IH"(2) [OF outer inner s1_def s2_def s3_def this] outer show ?thesis
        by (auto simp add: samples_step_def s1_def s2_def s3_def split: if_splits)
    qed
  qed
qed


lemma read_stop_seq_step:
  "read_stop_seq buffer r s = Some (r', s') \<Longrightarrow> 0 \<le> stop_flags s \<Longrightarrow> stop_step s s'"
proof (induction buffer r s rule: read_stop_seq.induct)
  case (1 buffer read_idx s)
  note res = "1.prems"(1) and nonneg = "1.prems"(2)
  show ?case
  proof (cases "stop_flags s < nflags s")
    case False
    then have "read_stop_seq buffer read_idx s = Some (read_idx, commit s)"
      by (subst read_stop_seq.simps) simp
    with res have "s' = commit s" by simp
    then show ?thesis by (simp add: stop_step_def commit_def cleanup_def)
  next
    case run: True
    with res obtain b where b: "byte_at buffer read_idx = Some b"
      by (subst (asm) read_stop_seq.simps) (auto split: option.splits)
    show ?thesis
    proof (cases "b = STOP_FLAG")
      case False
      with run b have "read_stop_seq buffer read_idx s =
          Some (inc_check_idx read_idx (int (length buffer)), cleanup s)"
        by (subst read_stop_seq.simps) simp
      with res have "s' = cleanup s" by simp
      then show ?thesis by (simp add: stop_step_def cleanup_def)
    next
      case flag: True
      define s1 where "s1 = s\<lparr>stop_flags := stop_flags s + 1\<rparr>"
      define r1 where "r1 = inc_check_idx read_idx (int (length buffer))"
      have s1: "0 \<le> stop_flags s1" "0 < stop_flags s1" using nonneg by (simp_all add: s1_def)
      have lift: "stop_step s1 s' \<Longrightarrow> stop_step s s'"
        by (simp add: stop_step_def s1_def)
      show ?thesis
      proof (cases "stop_flags s1 < nflags s1")
        case False
        have "read_stop_seq buffer read_idx s = read_stop_seq buffer read_idx s1"
          using run b flag False
          by (subst read_stop_seq.simps) (simp add: Let_def s1_def)
        with res have "read_stop_seq buffer read_idx s1 = Some (r', s')" by simp
        from "1.IH"(2) [OF run b flag s1_def False this s1(1)] lift show ?thesis by simp
      next
        case more: True
        have eqn: "read_stop_seq buffer read_idx s =
            (if r1 = 0 then Some (FALSE, s1) else read_stop_seq buffer r1 s1)"
          using run b flag more
          by (subst read_stop_seq.simps) (simp add: Let_def s1_def r1_def)
        show ?thesis
        proof (cases "r1 = 0")
          case True
          with eqn res have "s' = s1" by simp
          with s1(2) show ?thesis by (simp add: stop_step_def s1_def)
        next
          case False
          with eqn res have "read_stop_seq buffer r1 s1 = Some (r', s')" by simp
          from "1.IH"(1) [OF run b flag s1_def more r1_def False this s1(1)] lift
          show ?thesis by simp
        qed
      qed
    qed
  qed
qed

text \<open>
  The invariant is kept by the stop phase entered with \<open>sweep_idx = sweep_len\<close>, by the
  sample phase followed by the stop phase, and so by every chunk.
\<close>

lemma stop_from_full:
  assumes "parser_inv s" "sweep_idx s = sweep_len s" "read_stop_seq buffer r s = Some (r', s')"
  shows "parser_inv s' \<and> published_at_sweep_len s s'"
proof -
  from assms(1) have "0 \<le> stop_flags s" by (simp add: parser_inv_def)
  from read_stop_seq_step [OF assms(3) this] assms(1,2) show ?thesis
    by (auto simp add: stop_step_def parser_inv_def published_at_sweep_len_def)
qed

lemma samples_then_stop:
  assumes inv: "parser_inv s" and idle: "stop_flags s = 0"
    and sa: "read_sample_seq mag buffer r s = Some (r1, s1)"
    and rest: "(if r1 = 0 then Some (r1, s1) else read_stop_seq buffer r1 s1) = Some (r', s')"
  shows "parser_inv s' \<and> published_at_sweep_len s s'"
proof -
  note step = read_sample_seq_step [OF sa]
  show ?thesis
  proof (cases "r1 = 0")
    case True
    with rest have "s' = s1" by simp
    with step inv idle show ?thesis
      by (simp add: samples_step_def parser_inv_def published_at_sweep_len_def)
  next
    case False
    with rest have stop: "read_stop_seq buffer r1 s1 = Some (r', s')" by simp
    from step inv idle False have 1: "parser_inv s1" "sweep_idx s1 = sweep_len s1"
      by (simp_all add: samples_step_def parser_inv_def)
    from stop_from_full [OF 1 stop] step show ?thesis
      by (simp add: samples_step_def published_at_sweep_len_def)
  qed
qed

lemma parse_chunk_inv:
  assumes inv: "parser_inv s" and res: "parse_chunk mag buffer r s = Some (r', s')"
  shows "parser_inv s' \<and> published_at_sweep_len s s'"
proof (cases "stop_flags s \<noteq> 0")
  case True
  with res have stop: "read_stop_seq buffer r s = Some (r', s')"
    by (simp add: parse_chunk_def)
  from True inv have "sweep_idx s = sweep_len s" by (simp add: parser_inv_def)
  from stop_from_full [OF inv this stop] show ?thesis .
next
  case idle: False
  show ?thesis
  proof (cases "sweep_idx s \<noteq> 0")
    case True
    with idle res obtain r1 s1 where sa: "read_sample_seq mag buffer r s = Some (r1, s1)"
      and rest: "(if r1 = 0 then Some (r1, s1) else read_stop_seq buffer r1 s1) = Some (r', s')"
      by (auto simp add: parse_chunk_def split: option.splits)
    from idle samples_then_stop [OF inv _ sa rest] show ?thesis by simp
  next
    case False
    with idle res obtain r1 s1 where st: "read_start_seq buffer r s = Some (r1, s1)"
      and rest1: "(if r1 = 0 then Some (r1, s1)
                   else (case read_sample_seq mag buffer r1 s1 of
                           None \<Rightarrow> None
                         | Some (r2, s2) \<Rightarrow>
                             if r2 = 0 then Some (r2, s2) else read_stop_seq buffer r2 s2))
                  = Some (r', s')"
      by (auto simp add: parse_chunk_def split: option.splits)
    from read_start_seq_frame [OF st] obtain n where s1: "s1 = s\<lparr>start_flags := n\<rparr>" ..
    with inv idle have inv1: "parser_inv s1" "stop_flags s1 = 0"
      by (simp_all add: parser_inv_def)
    show ?thesis
    proof (cases "r1 = 0")
      case True
      with rest1 have "s' = s1" by simp
      with inv1 s1 show ?thesis by (simp add: published_at_sweep_len_def)
    next
      case False
      with rest1 obtain r2 s2 where sa: "read_sample_seq mag buffer r1 s1 = Some (r2, s2)"
        and rest: "(if r2 = 0 then Some (r2, s2) else read_stop_seq buffer r2 s2) = Some (r', s')"
        by (auto split: option.splits)
      from samples_then_stop [OF inv1 sa rest] s1 show ?thesis
        by (simp add: published_at_sweep_len_def)
    qed
  qed
qed

lemma callback_inv:
  assumes "parser_inv s" "callback mag buffer s = Some (ret, s')"
  shows "parser_inv s' \<and> published_at_sweep_len s s'"
proof (cases "cancel s \<noteq> 0 \<or> int (length buffer) = 0 \<or> sweep_valid s \<noteq> 0")
  case True
  with assms(2) have "s' = s" by (auto simp add: callback_def split: if_splits)
  with assms(1) show ?thesis by (simp add: published_at_sweep_len_def)
next
  case False
  with assms(2) obtain r1 s1 where p: "parse_chunk mag buffer 0 s = Some (r1, s1)"
    and s': "s' = log_chunk buffer r1 s1"
    by (auto simp add: callback_def split: option.splits)
  from parse_chunk_inv [OF assms(1) p] s' show ?thesis
    by (auto simp add: log_chunk_def parser_inv_def published_at_sweep_len_def)
qed

lemma readstream_inv:
  "parser_inv s \<Longrightarrow> ftdi_readstream mag chunks s = Some s' \<Longrightarrow>
     parser_inv s' \<and> sweep_len s' = sweep_len s \<and> sweep_size s' = sweep_size s"
proof (induction chunks arbitrary: s)
  case Nil
  then show ?case by simp
next
  case (Cons buffer rest)
  from Cons.prems(2) obtain ret s1 where cb: "callback mag buffer s = Some (ret, s1)"
    and rest: "(if ret \<noteq> 0 then Some s1 else ftdi_readstream mag rest s1) = Some s'"
    by (auto split: option.splits)
  from callback_inv [OF Cons.prems(1) cb]
  have inv1: "parser_inv s1" and same: "sweep_len s1 = sweep_len s" "sweep_size s1 = sweep_size s"
    by (simp_all add: published_at_sweep_len_def)
  show ?case
  proof (cases "ret \<noteq> 0")
    case True
    with rest inv1 same show ?thesis by simp
  next
    case False
    with rest have "ftdi_readstream mag rest s1 = Some s'" by simp
    from Cons.IH [OF inv1 this] same show ?thesis by simp
  qed
qed

text \<open>
  On a fresh process, \<open>fmcw_start_acquisition\<close> with \<open>sweep_len \<ge> 1\<close> establishes the
  invariant. So, whatever the stream and however it is cut into chunks, the last element
  of the block behind \<open>sweep\<close>, at index \<open>sweep_len - 1\<close>, is never written: the per-sample
  writes stop at index \<open>sweep_len - 2\<close> and every commit writes index \<open>sweep_len\<close>
  (lemma \<open>callback_inv\<close>).
\<close>

lemma start_inv:
  assumes "1 \<le> len" "fmcw_start_acquisition fopen_w log_path bits len mode init_state = (TRUE, s)"
  shows "parser_inv s \<and> sweep_len s = len \<and> sweep_size s = len"
  using assms
  by (cases log_path)
     (auto simp add: fmcw_start_acquisition_def Let_def parser_inv_def init_state_def
        split: if_splits)

lemma last_cell_never_written:
  assumes "1 \<le> len"
    and "fmcw_start_acquisition fopen_w log_path bits len mode init_state = (TRUE, s0)"
    and "ftdi_readstream mag chunks s0 = Some s"
  shows "sweep s (len - 1) = None \<and> sweep_size s = len"
proof -
  from start_inv [OF assms(1,2)]
  have 0: "parser_inv s0" "sweep_len s0 = len" "sweep_size s0 = len" by simp_all
  from readstream_inv [OF 0(1) assms(3)] 0(2,3) show ?thesis
    by (auto simp add: parser_inv_def)
qed

subsection \<open>The commit of a sweep\<close>

text \<open>
  C1, on the code: with 8-bit real samples and \<open>sweep_len = 2\<close> the block behind \<open>sweep\<close>
  has 2 elements. The frame \<open>FF FF 05 7A 8F 8F\<close> in one chunk writes the first sample at
  index 0 and, when the stop run completes, \<open>last_sample\<close> at index 2, which is
  \<open>sweep_len\<close>: \<open>read_sample_seq\<close> has left \<open>sweep_idx\<close> at \<open>sweep_len\<close>, and the commit
  writes \<open>sweep[_sweep_idx]\<close>. Index 1, the last element of the block, is never written.
\<close>

theorem commit_writes_at_sweep_len:
  "callback mag nominal_chunk real8 =
     Some (0, real8\<lparr>sweep_valid := 1, sweep := [0 \<mapsto> 5, 2 \<mapsto> 122], last_sample := 122\<rparr>)
   \<and> sweep_len real8 = 2 \<and> sweep_size real8 = 2 \<and> sweep real8 = Map.empty"
  by (simp add: real8_eq init_state_def parse_defs)

text \<open>
  C2, as the claim states it: with \<open>sample_bits = 7\<close> the start routine derives
  \<open>sample_bytes = 1\<close> and \<open>nflags = 1\<close>, not 2. On \<open>FF FF 05 7A 8F 8F\<close> the parser takes the
  first \<open>FF\<close> as the whole start run, decodes the second \<open>FF\<close> as the sample 127 and \<open>05\<close>
  as the last sample, and meets \<open>7A\<close> where the stop flag should be: the frame is
  dropped and the valid flag stays 0.
\<close>

theorem nominal_sb7_counterexample:
  "sample_bytes_var real7 = 1 \<and> nflags real7 = 1 \<and> sweep_valid real7 = 0 \<and>
   callback mag_unused nominal_chunk real7 =
     Some (0, real7\<lparr>sweep := [0 \<mapsto> 127], last_sample := 5\<rparr>)"
  by (simp add: real7_eq init_state_def parse_defs)

text \<open>
  C2, amended: with \<open>sample_bits = 8\<close>, \<open>sweep_len = 2\<close>, \<open>fft = 0\<close> the derived values are
  \<open>sample_bytes = 1\<close> and \<open>nflags = 2\<close>, and the single chunk \<open>FF FF 05 7A 8F 8F\<close> fed to a
  fresh parser publishes one sweep: the callback returns 0, the valid flag becomes 1,
  slot position 0 holds 5 and the held-back last sample is 122.
\<close>

theorem nominal_sb8_publishes:
  "sample_bytes_var real8 = 1 \<and> nflags real8 = 2 \<and> sweep_valid real8 = 0 \<and>
   (\<exists>s. callback mag nominal_chunk real8 = Some (0, s) \<and>
        sweep_valid s = 1 \<and> sweep s 0 = Some 5 \<and> last_sample s = 122)"
  by (simp add: real8_eq init_state_def parse_defs)

subsection \<open>Chunk boundaries\<close>

text \<open>
  The three branches of \<open>callback\<close>, by phase.
\<close>

lemma parse_chunk_by_phase:
  "parse_chunk mag buffer read_idx s =
     (case phase_of s of
        AwaitStop \<Rightarrow> read_stop_seq buffer read_idx s
      | ReadSamples \<Rightarrow>
          (case read_sample_seq mag buffer read_idx s of
             None \<Rightarrow> None
           | Some (read_idx1, s1) \<Rightarrow>
               if read_idx1 = 0 then Some (read_idx1, s1)
               else read_stop_seq buffer read_idx1 s1)
      | AwaitStart \<Rightarrow>
          (case read_start_seq buffer read_idx s of
             None \<Rightarrow> None
           | Some (read_idx1, s1) \<Rightarrow>
               if read_idx1 = 0 then Some (read_idx1, s1)
               else
                 (case read_sample_seq mag buffer read_idx1 s1 of
                    None \<Rightarrow> None
                  | Some (read_idx2, s2) \<Rightarrow>
                      if read_idx2 = 0 then Some (read_idx2, s2)
                      else read_stop_seq buffer read_idx2 s2)))"
  by (simp add: parse_chunk_def phase_of_def)

text \<open>
  A chunk that ends after the start run and before the first sample is stored leaves
  \<open>start_flags = nflags\<close> with \<open>sweep_idx = 0\<close>. From then on \<open>callback\<close> enters
  \<open>read_start_seq\<close>, whose loop does not run, gets back the \<open>read_idx\<close> 0 it passed in,
  takes it for the end of the chunk and changes nothing but the log: every later chunk is
  skipped whole.
\<close>

lemma start_branch_stuck:
  assumes "cancel s = 0" "sweep_valid s = 0" "stop_flags s = 0" "sweep_idx s = 0"
    and "nflags s \<le> start_flags s" "buffer \<noteq> []"
  shows "callback mag buffer s = Some (0, log_chunk buffer 0 s)"
  using assms by (simp add: callback_def parse_chunk_def read_start_seq.simps)

text \<open>
  The same happens when a chunk ends with the last byte of the last sample:
  \<open>read_sample_seq\<close> stores the sample at the start of the next chunk, returns the
  \<open>read_idx\<close> 0, and from then on returns 0 at once for every chunk.
\<close>

lemma sample_branch_stuck:
  assumes "cancel s = 0" "sweep_valid s = 0" "stop_flags s = 0" "sweep_idx s \<noteq> 0"
    and "sweep_len s \<le> sweep_idx s" "buffer \<noteq> []"
  shows "callback mag buffer s = Some (0, log_chunk buffer 0 s)"
  using assms by (simp add: callback_def parse_chunk_def read_sample_seq.simps)

text \<open>
  C3, on the code: with 8-bit real samples and \<open>sweep_len = 2\<close>, the frame
  \<open>FF FF 05 7A 8F 8F\<close> fed as one chunk publishes a sweep; the same bytes fed as the
  chunks \<open>FF\<close>, \<open>FF 05\<close>, \<open>7A 8F\<close>, \<open>8F\<close> publish nothing: after the second chunk the parser
  has \<open>start_flags = 2\<close>, \<open>sweep_idx = 0\<close>, \<open>byte_idx = 1\<close>, and the last two chunks leave
  that state as it is.
\<close>

theorem chunking_changes_result:
  "ftdi_readstream mag [[0xFF, 0xFF, 0x05, 0x7A, 0x8F, 0x8F]] real8 =
     Some (real8\<lparr>sweep_valid := 1, sweep := [0 \<mapsto> 5, 2 \<mapsto> 122], last_sample := 122\<rparr>)
   \<and> ftdi_readstream mag [[0xFF], [0xFF, 0x05], [0x7A, 0x8F], [0x8F]] real8 =
     Some (real8\<lparr>start_flags := 2, byte_idx := 1, uval := 5\<rparr>)
   \<and> sweep_valid real8 = 0"
  by (simp add: real8_eq init_state_def parse_defs)

text \<open>
  C7, on the code: with 12-bit real samples (two bytes each), the chunk \<open>FF FF 00\<close> ends
  inside the first sample and leaves \<open>stop_flags = 0\<close>, \<open>sweep_idx = 0\<close>, \<open>byte_idx = 1\<close>.
  The callback chooses its branch by \<open>stop_flags\<close> and \<open>sweep_idx\<close> alone, so this state
  takes the start branch, not the sample branch, and the rest of the frame,
  \<open>05 00 7A 8F 8F\<close>, changes nothing.
\<close>

theorem split_first_sample_not_resumed:
  "callback mag [0xFF, 0xFF, 0x00] real12 = Some (0, split_first) \<and>
   stop_flags split_first = 0 \<and> sweep_idx split_first = 0 \<and> byte_idx split_first = 1 \<and>
   phase_of split_first = AwaitStart \<and>
   callback mag [0x05, 0x00, 0x7A, 0x8F, 0x8F] split_first = Some (0, split_first)"
  by (simp add: split_first_def real12_eq init_state_def parse_defs phase_of_def)

subsection \<open>Chunks that arrive while the slot is valid\<close>

text \<open>
  C4, as the claim states it: the chunk \<open>FF\<close> advances \<open>start_flags\<close> from 0 to 1 when
  the valid flag is 0, and leaves it at 0 when the valid flag is 1.
\<close>

theorem valid_chunk_counterexample:
  "start_flags real8 = 0 \<and>
   map_option (start_flags \<circ> snd) (callback mag_unused [0xFF] (real8\<lparr>sweep_valid := 1\<rparr>))
     = Some 0 \<and>
   map_option (start_flags \<circ> snd) (callback mag_unused [0xFF] (real8\<lparr>sweep_valid := 0\<rparr>))
     = Some 1"
  by (simp add: real8_eq init_state_def parse_defs)

lemma callback_valid:
  "sweep_valid s \<noteq> 0 \<Longrightarrow> callback mag buffer s = Some (if cancel s \<noteq> 0 then 1 else 0, s)"
  by (simp add: callback_def)

lemma readstream_valid: "sweep_valid s \<noteq> 0 \<Longrightarrow> ftdi_readstream mag chunks s = Some s"
  by (induction chunks) (simp_all add: callback_valid)

text \<open>
  C4, amended: a chunk fed while the valid flag is set is dropped whole. The callback
  returns at once (0, or 1 under cancellation) and the state is unchanged: framing
  counters, slot and log. So with a consumer that never drains, whatever chunks follow a
  published sweep, the slot keeps that sweep and the parser does not move.
\<close>

theorem callback_valid_drops_chunk:
  assumes "sweep_valid s \<noteq> 0"
  shows "callback mag buffer s = Some (if cancel s \<noteq> 0 then 1 else 0, s)
       \<and> ftdi_readstream mag chunks s = Some s"
  using assms by (simp add: callback_valid readstream_valid)

text \<open>
  Witness for C4: the 8-bit configuration with the valid flag set, fed one frame and
  then two more.
\<close>

theorem callback_valid_drops_chunk_witness:
  "sweep_valid (real8\<lparr>sweep_valid := 1\<rparr>) \<noteq> 0 \<and>
   callback mag_unused nominal_chunk (real8\<lparr>sweep_valid := 1\<rparr>)
     = Some (0, real8\<lparr>sweep_valid := 1\<rparr>) \<and>
   ftdi_readstream mag_unused [nominal_chunk, nominal_chunk] (real8\<lparr>sweep_valid := 1\<rparr>)
     = Some (real8\<lparr>sweep_valid := 1\<rparr>)"
  using callback_valid_drops_chunk
    [of "real8\<lparr>sweep_valid := 1\<rparr>" mag_unused nominal_chunk "[nominal_chunk, nominal_chunk]"]
  by (simp add: real8_eq init_state_def)

subsection \<open>The raw log\<close>

text \<open>
  C5, on the code: with a log file open, the callback receives the six bytes
  \<open>FF FF 05 7A 8F 8F\<close> and appends five of them to the log. The commit leaves \<open>read_idx\<close>
  at 5, the index of the last stop flag, and the label \<open>log\<close> writes \<open>read_idx\<close> bytes
  when \<open>read_idx\<close> is not 0.
\<close>

theorem log_misses_bytes:
  "log_file real8_logged \<noteq> 0 \<and> log_data real8_logged = [] \<and>
   callback mag nominal_chunk real8_logged =
     Some (0, real8_logged\<lparr>sweep_valid := 1, sweep := [0 \<mapsto> 5, 2 \<mapsto> 122],
                            last_sample := 122,
                            log_data := [0xFF, 0xFF, 0x05, 0x7A, 0x8F]\<rparr>)"
  by (simp add: real8_logged_eq init_state_def parse_defs)

subsection \<open>Starting with a bad configuration\<close>

text \<open>
  C6, as the claim states it: \<open>fmcw_start_acquisition(NULL, 0, 0, 0)\<close>, with zero
  \<open>sample_bits\<close> and zero \<open>sweep_len\<close>, returns \<open>TRUE\<close> and starts the producer.
\<close>

theorem start_zero_config_counterexample:
  "fmcw_start_acquisition fopen_null None 0 0 0 init_state =
     (TRUE, init_state\<lparr>sample_bytes_var := 1, nflags := 1, producer_running := True\<rparr>)"
  by (simp add: start_defs)

text \<open>
  C6, amended: \<open>fmcw_start_acquisition\<close> does not look at \<open>sample_bits\<close> or \<open>sweep_len\<close>.
  When no log path is given, or the log file opens, it returns \<open>TRUE\<close> and starts the
  producer for every \<open>sample_bits\<close>, \<open>sweep_len\<close> and \<open>fft\<close>, zero included, storing the
  three values as given.
\<close>

theorem start_acquisition_no_validation:
  assumes "case log_path of None \<Rightarrow> True | Some path \<Rightarrow> fopen_w path \<noteq> 0"
  shows "\<exists>s'. fmcw_start_acquisition fopen_w log_path bits len mode s = (TRUE, s')
           \<and> producer_running s' \<and> sample_bits s' = bits
           \<and> sweep_len s' = len \<and> fft s' = mode"
  using assms by (cases log_path) (simp_all add: fmcw_start_acquisition_def Let_def)

text \<open>
  Witness for C6: no log path, \<open>sample_bits = 0\<close>, \<open>sweep_len = 0\<close>.
\<close>

theorem start_acquisition_no_validation_witness:
  "(case (None :: string option) of None \<Rightarrow> True | Some path \<Rightarrow> fopen_null path \<noteq> 0) \<and>
   fst (fmcw_start_acquisition fopen_null None 0 0 0 init_state) = TRUE \<and>
   producer_running (snd (fmcw_start_acquisition fopen_null None 0 0 0 init_state)) \<and>
   sweep_len (snd (fmcw_start_acquisition fopen_null None 0 0 0 init_state)) = 0"
  using start_acquisition_no_validation
    [where log_path = None and fopen_w = fopen_null and bits = 0 and len = 0
       and mode = 0 and s = init_state]
  by auto

end
